theory Spec2Isabelle
  imports Complex_Main
begin

section \<open>The environment: exceptions, the filesystem, the clock\<close>

text \<open>
  A Python exception, reduced to what the code under study looks at: whether it is an
  instance of \<^verbatim>\<open>Exception\<close> (what \<^verbatim>\<open>except Exception\<close> catches; \<^verbatim>\<open>SystemExit\<close>,
  \<^verbatim>\<open>KeyboardInterrupt\<close> and \<^verbatim>\<open>GeneratorExit\<close> derive from \<^verbatim>\<open>BaseException\<close> only),
  and the text \<^verbatim>\<open>str(e)\<close> gives.
\<close>

datatype exn = Exn (isinstance_Exception: bool) (str: string)

text \<open>A call either returns a value or raises.\<close>

datatype 'a outcome = Return 'a | Raise exn

type_synonym path = string
type_synonym timestamp = real

datatype file_kind = Regular | Directory | Other

text \<open>
  One snapshot of the operating system's filesystem, as the functions of \<^verbatim>\<open>os\<close> and
  \<^verbatim>\<open>os.path\<close> observe it. These functions are outside the repository, so they are
  parameters of the model:
  \<^item> \<open>os_stat p\<close> is \<^verbatim>\<open>os.stat(p)\<close>: the kind and modification time of what \<open>p\<close> names,
    or the message of the \<^verbatim>\<open>OSError\<close> it raises;
  \<^item> \<open>os_walk p\<close> is the list \<^verbatim>\<open>os.walk(p)\<close> generates, of triples (dirpath, dirs, files);
  \<^item> \<open>path_join\<close> is \<^verbatim>\<open>os.path.join\<close>.

  A call of \<^verbatim>\<open>detect\<close> or of the constructor sees one snapshot: the filesystem does not
  change while the call runs. Between calls it may change in any way.
\<close>

record filesystem =
  os_stat :: "path \<Rightarrow> string + (file_kind \<times> timestamp)"
  os_walk :: "path \<Rightarrow> (path \<times> string list \<times> string list) list"
  path_join :: "path \<Rightarrow> string \<Rightarrow> path"

text \<open>
  \<^verbatim>\<open>os.path.exists\<close>, \<^verbatim>\<open>isfile\<close> and \<^verbatim>\<open>isdir\<close> call \<^verbatim>\<open>os.stat\<close> and answer False when it
  raises; \<^verbatim>\<open>os.path.getmtime\<close> returns \<^verbatim>\<open>os.stat(p).st_mtime\<close> and lets the error through.
\<close>

definition exists :: "filesystem \<Rightarrow> path \<Rightarrow> bool" where
  "exists fs p = (case os_stat fs p of Inl _ \<Rightarrow> False | Inr _ \<Rightarrow> True)"

definition isfile :: "filesystem \<Rightarrow> path \<Rightarrow> bool" where
  "isfile fs p = (case os_stat fs p of Inl _ \<Rightarrow> False | Inr (k, _) \<Rightarrow> k = Regular)"

definition isdir :: "filesystem \<Rightarrow> path \<Rightarrow> bool" where
  "isdir fs p = (case os_stat fs p of Inl _ \<Rightarrow> False | Inr (k, _) \<Rightarrow> k = Directory)"

definition getmtime :: "filesystem \<Rightarrow> path \<Rightarrow> exn + timestamp" where
  "getmtime fs p = (case os_stat fs p of Inl msg \<Rightarrow> Inl (Exn True msg) | Inr (_, m) \<Rightarrow> Inr m)"

text \<open>
  \<^verbatim>\<open>time.time()\<close>: the clock holds the readings it will give, and counts the reads.
\<close>

record clock =
  readings :: "nat \<Rightarrow> timestamp"
  ticks :: nat

definition time_time :: "clock \<Rightarrow> timestamp \<times> clock" where
  "time_time clk = (readings clk (ticks clk), clk\<lparr>ticks := Suc (ticks clk)\<rparr>)"

section \<open>Detection events\<close>

text \<open>
  An event is a Python dict with string keys, kept as the list of its items in insertion
  order.
\<close>

datatype pyval = Str string | Float timestamp

type_synonym event = "(string \<times> pyval) list"

definition file_change :: "path \<Rightarrow> timestamp \<Rightarrow> string \<Rightarrow> event" where
  "file_change p current_time action =
     [(''type'', Str ''file_change''), (''path'', Str p),
      (''timestamp'', Float current_time), (''action'', Str action)]"

definition process_check :: "timestamp \<Rightarrow> event" where
  "process_check current_time =
     [(''type'', Str ''process_check''), (''timestamp'', Float current_time),
      (''message'', Str ''Process monitoring active'')]"

definition detection_error :: "string \<Rightarrow> string \<Rightarrow> timestamp \<Rightarrow> event" where
  "detection_error detector_name err t =
     [(''type'', Str ''detection_error''), (''detector'', Str detector_name),
      (''error'', Str err), (''timestamp'', Float t)]"

section \<open>detector.py: the detectors\<close>

record base_detector =
  name :: string
  enabled :: bool
  last_detection_time :: "timestamp option"

record file_detector = base_detector +
  watch_paths :: "path list"
  file_cache :: "path \<rightharpoonup> timestamp"

record process_detector = base_detector +
  process_cache :: "string set"

subsection \<open>FileDetector\<close>

text \<open>
  \<^verbatim>\<open>_initialize_cache\<close>: the inner loop over the files of one triple of the walk, the loop
  over the triples, and the loop over the watch paths. \<^verbatim>\<open>getmtime\<close> is called with no
  guard in the directory branch, so its error leaves the constructor.
\<close>

fun init_files :: "filesystem \<Rightarrow> path \<Rightarrow> string list \<Rightarrow> (path \<rightharpoonup> timestamp)
    \<Rightarrow> exn + (path \<rightharpoonup> timestamp)" where
  "init_files fs dirpath [] cache = Inr cache"
| "init_files fs dirpath (file # files) cache =
     (let file_path = path_join fs dirpath file in
      case getmtime fs file_path of
        Inl e \<Rightarrow> Inl e
      | Inr m \<Rightarrow> init_files fs dirpath files (cache(file_path \<mapsto> m)))"

fun init_walk :: "filesystem \<Rightarrow> (path \<times> string list \<times> string list) list
    \<Rightarrow> (path \<rightharpoonup> timestamp) \<Rightarrow> exn + (path \<rightharpoonup> timestamp)" where
  "init_walk fs [] cache = Inr cache"
| "init_walk fs ((dirpath, dirs, files) # rest) cache =
     (case init_files fs dirpath files cache of
        Inl e \<Rightarrow> Inl e
      | Inr cache' \<Rightarrow> init_walk fs rest cache')"

fun initialize_cache :: "filesystem \<Rightarrow> path list \<Rightarrow> (path \<rightharpoonup> timestamp)
    \<Rightarrow> exn + (path \<rightharpoonup> timestamp)" where
  "initialize_cache fs [] cache = Inr cache"
| "initialize_cache fs (p # paths) cache =
     (if exists fs p then
        if isfile fs p then
          (case getmtime fs p of
             Inl e \<Rightarrow> Inl e
           | Inr m \<Rightarrow> initialize_cache fs paths (cache(p \<mapsto> m)))
        else if isdir fs p then
          (case init_walk fs (os_walk fs p) cache of
             Inl e \<Rightarrow> Inl e
           | Inr cache' \<Rightarrow> initialize_cache fs paths cache')
        else initialize_cache fs paths cache
      else initialize_cache fs paths cache)"

text \<open>
  The constructor: \<^verbatim>\<open>watch_paths or ["."]\<close> replaces both None and the empty list. When
  \<^verbatim>\<open>_initialize_cache\<close> raises there is no detector.
\<close>

definition FileDetector_init :: "filesystem \<Rightarrow> path list option \<Rightarrow> exn + file_detector" where
  "FileDetector_init fs paths =
     (let wp = (case paths of None \<Rightarrow> [''.''] | Some [] \<Rightarrow> [''.''] | Some ps \<Rightarrow> ps) in
      case initialize_cache fs wp Map.empty of
        Inl e \<Rightarrow> Inl e
      | Inr cache \<Rightarrow>
          Inr \<lparr>name = ''file_detector'', enabled = True, last_detection_time = None,
               watch_paths = wp, file_cache = cache\<rparr>)"

text \<open>
  The statement both branches of \<^verbatim>\<open>detect\<close> run on a file whose modification time they
  have read (lines 94-101 and 110-117): the state is the cache and the list
  \<^verbatim>\<open>detections\<close>.
\<close>

definition observe :: "path \<Rightarrow> timestamp \<Rightarrow> timestamp
    \<Rightarrow> (path \<rightharpoonup> timestamp) \<times> event list \<Rightarrow> (path \<rightharpoonup> timestamp) \<times> event list" where
  "observe p current_mtime current_time st =
     (case st of (cache, detections) \<Rightarrow>
        if cache p = None \<or> cache p \<noteq> Some current_mtime then
          (cache(p \<mapsto> current_mtime),
           detections @
             [file_change p current_time (if cache p \<noteq> None then ''modified'' else ''created'')])
        else (cache, detections))"

text \<open>
  The loops of \<^verbatim>\<open>detect\<close>. Each returns the exception that left it, if any, with the
  state reached: the cache is an attribute of the detector and keeps what was written
  before a raise.
\<close>

fun detect_files :: "filesystem \<Rightarrow> timestamp \<Rightarrow> path \<Rightarrow> string list
    \<Rightarrow> (path \<rightharpoonup> timestamp) \<times> event list
    \<Rightarrow> exn option \<times> (path \<rightharpoonup> timestamp) \<times> event list" where
  "detect_files fs current_time dirpath [] st = (None, st)"
| "detect_files fs current_time dirpath (file # files) st =
     (let file_path = path_join fs dirpath file in
      if exists fs file_path then
        (case getmtime fs file_path of
           Inl e \<Rightarrow> (Some e, st)
         | Inr current_mtime \<Rightarrow>
             detect_files fs current_time dirpath files
               (observe file_path current_mtime current_time st))
      else detect_files fs current_time dirpath files st)"

fun detect_walk :: "filesystem \<Rightarrow> timestamp \<Rightarrow> (path \<times> string list \<times> string list) list
    \<Rightarrow> (path \<rightharpoonup> timestamp) \<times> event list
    \<Rightarrow> exn option \<times> (path \<rightharpoonup> timestamp) \<times> event list" where
  "detect_walk fs current_time [] st = (None, st)"
| "detect_walk fs current_time ((dirpath, dirs, files) # rest) st =
     (case detect_files fs current_time dirpath files st of
        (Some e, st') \<Rightarrow> (Some e, st')
      | (None, st') \<Rightarrow> detect_walk fs current_time rest st')"

fun detect_paths :: "filesystem \<Rightarrow> timestamp \<Rightarrow> path list
    \<Rightarrow> (path \<rightharpoonup> timestamp) \<times> event list
    \<Rightarrow> exn option \<times> (path \<rightharpoonup> timestamp) \<times> event list" where
  "detect_paths fs current_time [] st = (None, st)"
| "detect_paths fs current_time (p # paths) st =
     (if \<not> exists fs p then detect_paths fs current_time paths st
      else if isfile fs p then
        (case getmtime fs p of
           Inl e \<Rightarrow> (Some e, st)
         | Inr current_mtime \<Rightarrow>
             detect_paths fs current_time paths (observe p current_mtime current_time st))
      else if isdir fs p then
        (case detect_walk fs current_time (os_walk fs p) st of
           (Some e, st') \<Rightarrow> (Some e, st')
         | (None, st') \<Rightarrow> detect_paths fs current_time paths st')
      else detect_paths fs current_time paths st)"

text \<open>
  \<^verbatim>\<open>FileDetector.detect\<close>: the outcome, the detector after the call and the clock after
  the call. \<^verbatim>\<open>last_detection_time\<close> is assigned after the loop only.
\<close>

definition FileDetector_detect :: "filesystem \<Rightarrow> clock \<Rightarrow> file_detector
    \<Rightarrow> event list outcome \<times> file_detector \<times> clock" where
  "FileDetector_detect fs clk d =
     (if \<not> enabled d then (Return [], d, clk)
      else
        case time_time clk of (current_time, clk') \<Rightarrow>
        (case detect_paths fs current_time (watch_paths d) (file_cache d, []) of
           (Some e, cache, detections) \<Rightarrow> (Raise e, d\<lparr>file_cache := cache\<rparr>, clk')
         | (None, cache, detections) \<Rightarrow>
             (Return detections,
              d\<lparr>file_cache := cache, last_detection_time := Some current_time\<rparr>, clk')))"

subsection \<open>ProcessDetector\<close>

definition ProcessDetector_init :: process_detector where
  "ProcessDetector_init =
     \<lparr>name = ''process_detector'', enabled = True, last_detection_time = None,
      process_cache = {}\<rparr>"

definition ProcessDetector_detect :: "clock \<Rightarrow> process_detector
    \<Rightarrow> event list outcome \<times> process_detector \<times> clock" where
  "ProcessDetector_detect clk d =
     (if \<not> enabled d then (Return [], d, clk)
      else
        case time_time clk of (current_time, clk') \<Rightarrow>
        (Return [process_check current_time],
         d\<lparr>last_detection_time := Some current_time\<rparr>, clk'))"

subsection \<open>Detectors written by the user\<close>

text \<open>
  \<^verbatim>\<open>BaseDetector\<close> is abstract: the tests subclass it (\<^verbatim>\<open>MockDetector\<close>,
  \<^verbatim>\<open>ErrorDetector\<close>) and so may any caller. Such a detector has the base attributes and a
  state of its own; what its \<^verbatim>\<open>detect\<close> does is a parameter \<open>ud\<close> of the model: it
  reads the filesystem and the clock, returns events or raises, and leaves the detector
  and the clock in a new state. It does not reach the other detectors, the registry or
  the agent.
\<close>

record 'c custom_detector = base_detector +
  ustate :: 'c

type_synonym 'c user_detect =
  "filesystem \<Rightarrow> clock \<Rightarrow> 'c custom_detector
    \<Rightarrow> event list outcome \<times> 'c custom_detector \<times> clock"

datatype 'c any_detector =
    FileD file_detector
  | ProcessD process_detector
  | CustomD "'c custom_detector"

fun name_of :: "'c any_detector \<Rightarrow> string" where
  "name_of (FileD d) = name d"
| "name_of (ProcessD d) = name d"
| "name_of (CustomD d) = name d"

fun is_enabled :: "'c any_detector \<Rightarrow> bool" where
  "is_enabled (FileD d) = enabled d"
| "is_enabled (ProcessD d) = enabled d"
| "is_enabled (CustomD d) = enabled d"

fun enable :: "'c any_detector \<Rightarrow> 'c any_detector" where
  "enable (FileD d) = FileD (d\<lparr>enabled := True\<rparr>)"
| "enable (ProcessD d) = ProcessD (d\<lparr>enabled := True\<rparr>)"
| "enable (CustomD d) = CustomD (d\<lparr>enabled := True\<rparr>)"

fun disable :: "'c any_detector \<Rightarrow> 'c any_detector" where
  "disable (FileD d) = FileD (d\<lparr>enabled := False\<rparr>)"
| "disable (ProcessD d) = ProcessD (d\<lparr>enabled := False\<rparr>)"
| "disable (CustomD d) = CustomD (d\<lparr>enabled := False\<rparr>)"

text \<open>\<^verbatim>\<open>detector.detect()\<close>, dispatched on the class of the detector.\<close>

fun detect :: "'c user_detect \<Rightarrow> filesystem \<Rightarrow> clock \<Rightarrow> 'c any_detector
    \<Rightarrow> event list outcome \<times> 'c any_detector \<times> clock" where
  "detect ud fs clk (FileD d) =
     (case FileDetector_detect fs clk d of (r, d', clk') \<Rightarrow> (r, FileD d', clk'))"
| "detect ud fs clk (ProcessD d) =
     (case ProcessDetector_detect clk d of (r, d', clk') \<Rightarrow> (r, ProcessD d', clk'))"
| "detect ud fs clk (CustomD d) =
     (case ud fs clk d of (r, d', clk') \<Rightarrow> (r, CustomD d', clk'))"

section \<open>detector.py: the coordinator \<^verbatim>\<open>Detector\<close>\<close>

text \<open>
  \<^verbatim>\<open>self.detectors\<close> is a dict, iterated in insertion order: a list of items with distinct
  keys. Assigning to a key that is present keeps its place; a new key goes to the end.
\<close>

fun dict_set :: "('k \<times> 'v) list \<Rightarrow> 'k \<Rightarrow> 'v \<Rightarrow> ('k \<times> 'v) list" where
  "dict_set [] k v = [(k, v)]"
| "dict_set ((k', v') # items) k v =
     (if k' = k then (k, v) # items else (k', v') # dict_set items k v)"

definition dict_del :: "('k \<times> 'v) list \<Rightarrow> 'k \<Rightarrow> ('k \<times> 'v) list" where
  "dict_del items k = filter (\<lambda>item. fst item \<noteq> k) items"

record 'c Detector =
  detectors :: "(string \<times> 'c any_detector) list"
  results :: "event list"

definition Detector_init :: "'c Detector" where
  "Detector_init = \<lparr>detectors = [], results = []\<rparr>"

definition add_detector :: "'c any_detector \<Rightarrow> 'c Detector \<Rightarrow> 'c Detector" where
  "add_detector det reg = reg\<lparr>detectors := dict_set (detectors reg) (name_of det) det\<rparr>"

definition remove_detector :: "string \<Rightarrow> 'c Detector \<Rightarrow> bool \<times> 'c Detector" where
  "remove_detector nm reg =
     (if nm \<in> fst ` set (detectors reg)
      then (True, reg\<lparr>detectors := dict_del (detectors reg) nm\<rparr>)
      else (False, reg))"

definition get_detector :: "string \<Rightarrow> 'c Detector \<Rightarrow> 'c any_detector option" where
  "get_detector nm reg = map_of (detectors reg) nm"

text \<open>
  The loop of \<^verbatim>\<open>run_all_detections\<close> over \<^verbatim>\<open>self.detectors.values()\<close>. It returns the
  exception that left it, if any, the items with the detectors as the calls left them,
  the clock and \<^verbatim>\<open>all_results\<close>. The handler \<^verbatim>\<open>except Exception\<close> takes an exception that
  is an instance of \<^verbatim>\<open>Exception\<close>, reads the detector's name and the clock, and the loop
  goes on; any other exception leaves the loop.
\<close>

fun run_detectors :: "'c user_detect \<Rightarrow> filesystem \<Rightarrow> (string \<times> 'c any_detector) list
    \<Rightarrow> clock \<Rightarrow> event list
    \<Rightarrow> exn option \<times> (string \<times> 'c any_detector) list \<times> clock \<times> event list" where
  "run_detectors ud fs [] clk all_results = (None, [], clk, all_results)"
| "run_detectors ud fs ((k, detector) # rest) clk all_results =
     (if is_enabled detector then
        (case detect ud fs clk detector of
           (Return rs, detector', clk') \<Rightarrow>
             (case run_detectors ud fs rest clk' (all_results @ rs) of
                (x, rest', clk2, all_results') \<Rightarrow>
                  (x, (k, detector') # rest', clk2, all_results'))
         | (Raise e, detector', clk') \<Rightarrow>
             if isinstance_Exception e then
               (case time_time clk' of (t, clk2) \<Rightarrow>
                 (case run_detectors ud fs rest clk2
                         (all_results @ [detection_error (name_of detector') (str e) t]) of
                    (x, rest', clk3, all_results') \<Rightarrow>
                      (x, (k, detector') # rest', clk3, all_results')))
             else (Some e, (k, detector') # rest, clk', all_results))
      else
        (case run_detectors ud fs rest clk all_results of
           (x, rest', clk', all_results') \<Rightarrow> (x, (k, detector) # rest', clk', all_results')))"

text \<open>
  \<^verbatim>\<open>run_all_detections\<close>: the history is extended after the loop, so not when an exception
  left the loop.
\<close>

definition run_all_detections :: "'c user_detect \<Rightarrow> filesystem \<Rightarrow> clock \<Rightarrow> 'c Detector
    \<Rightarrow> event list outcome \<times> 'c Detector \<times> clock" where
  "run_all_detections ud fs clk reg =
     (case run_detectors ud fs (detectors reg) clk [] of
        (Some e, ds, clk', all_results) \<Rightarrow> (Raise e, reg\<lparr>detectors := ds\<rparr>, clk')
      | (None, ds, clk', all_results) \<Rightarrow>
          (Return all_results,
           reg\<lparr>detectors := ds, results := results reg @ all_results\<rparr>, clk'))"

definition get_detection_history :: "'c Detector \<Rightarrow> event list" where
  "get_detection_history reg = results reg"

definition clear_history :: "'c Detector \<Rightarrow> 'c Detector" where
  "clear_history reg = reg\<lparr>results := []\<rparr>"

section \<open>config.py\<close>

text \<open>
  The values a configuration holds, as far as the agent reads them, and the dict
  \<^verbatim>\<open>_config\<close> from option names to values. Loading a file and \<^verbatim>\<open>validate\<close> are not
  modelled.
\<close>

datatype cvalue = IntV int | StrV string | ListV "cvalue list"

type_synonym config = "string \<rightharpoonup> cvalue"

definition DEFAULT_CONFIG :: config where
  "DEFAULT_CONFIG = map_of
     [(''detection_interval'', IntV 30),
      (''max_threads'', IntV 4),
      (''log_level'', StrV ''INFO''),
      (''output_format'', StrV ''json''),
      (''enabled_detectors'', ListV [StrV ''file'', StrV ''network'', StrV ''process''])]"

text \<open>\<^verbatim>\<open>Config()\<close> with no file: a copy of the defaults.\<close>

definition Config_init :: config where
  "Config_init = DEFAULT_CONFIG"

definition Config_get :: "config \<Rightarrow> string \<Rightarrow> cvalue \<Rightarrow> cvalue" where
  "Config_get cfg key dflt = (case cfg key of None \<Rightarrow> dflt | Some v \<Rightarrow> v)"

definition Config_set :: "config \<Rightarrow> string \<Rightarrow> cvalue \<Rightarrow> config" where
  "Config_set cfg key v = cfg(key \<mapsto> v)"

text \<open>
  Python's \<^verbatim>\<open>s in v\<close> for a string \<open>s\<close>: membership in a list, substring of a string, a
  \<^verbatim>\<open>TypeError\<close> on an integer.
\<close>

fun is_substring :: "string \<Rightarrow> string \<Rightarrow> bool" where
  "is_substring s [] = (s = [])"
| "is_substring s (c # t) = (take (length s) (c # t) = s \<or> is_substring s t)"

fun py_in :: "string \<Rightarrow> cvalue \<Rightarrow> exn + bool" where
  "py_in s (ListV vs) = Inr (StrV s \<in> set vs)"
| "py_in s (StrV t) = Inr (is_substring s t)"
| "py_in s (IntV n) = Inl (Exn True ''argument of type int is not iterable'')"

section \<open>agent.py: \<^verbatim>\<open>DetectionAgent\<close>\<close>

text \<open>
  The agent's attributes. A callback is any value of a type \<open>'cb\<close>; what calling it
  does is a parameter of the model (see \<open>notify_callbacks\<close>). A thread is named by a
  number. Logging is left out: the logger calls, and the call of
  \<^verbatim>\<open>logging.basicConfig\<close> in the constructor. The body of the background thread
  (\<^verbatim>\<open>_run_loop\<close>) and \<^verbatim>\<open>get_status\<close> are not modelled.
\<close>

record ('c, 'cb) DetectionAgent =
  config :: config
  detector :: "'c Detector"
  running :: bool
  thread :: "nat option"
  callbacks :: "'cb list"

text \<open>
  \<^verbatim>\<open>_initialize_detectors\<close>: the two membership tests, each followed by the construction
  and registration of a detector. \<^verbatim>\<open>FileDetector()\<close> scans the current directory and may
  raise.
\<close>

definition initialize_detectors :: "filesystem \<Rightarrow> config \<Rightarrow> 'c Detector \<Rightarrow> exn + 'c Detector" where
  "initialize_detectors fs cfg reg =
     (let enabled_detectors = Config_get cfg ''enabled_detectors'' (ListV []) in
      case py_in ''file'' enabled_detectors of
        Inl e \<Rightarrow> Inl e
      | Inr has_file \<Rightarrow>
          (case (if has_file
                 then (case FileDetector_init fs None of
                         Inl e \<Rightarrow> Inl e
                       | Inr file_detector \<Rightarrow> Inr (add_detector (FileD file_detector) reg))
                 else Inr reg) of
             Inl e \<Rightarrow> Inl e
           | Inr reg' \<Rightarrow>
               (case py_in ''process'' enabled_detectors of
                  Inl e \<Rightarrow> Inl e
                | Inr has_process \<Rightarrow>
                    if has_process
                    then Inr (add_detector (ProcessD ProcessDetector_init) reg')
                    else Inr reg')))"

definition DetectionAgent_init :: "filesystem \<Rightarrow> config option
    \<Rightarrow> exn + ('c, 'cb) DetectionAgent" where
  "DetectionAgent_init fs cfg_opt =
     (let cfg = (case cfg_opt of None \<Rightarrow> Config_init | Some c \<Rightarrow> c) in
      case initialize_detectors fs cfg Detector_init of
        Inl e \<Rightarrow> Inl e
      | Inr reg \<Rightarrow>
          Inr \<lparr>config = cfg, detector = reg, running = False, thread = None, callbacks = []\<rparr>)"

definition add_callback :: "'cb \<Rightarrow> ('c, 'cb) DetectionAgent \<Rightarrow> ('c, 'cb) DetectionAgent" where
  "add_callback cb a = a\<lparr>callbacks := callbacks a @ [cb]\<rparr>"

definition remove_callback :: "'cb \<Rightarrow> ('c, 'cb) DetectionAgent
    \<Rightarrow> bool \<times> ('c, 'cb) DetectionAgent" where
  "remove_callback cb a =
     (if cb \<in> set (callbacks a) then (True, a\<lparr>callbacks := remove1 cb (callbacks a)\<rparr>)
      else (False, a))"







section \<open>Sequences of calls\<close>

text \<open>
  Repeated calls, each on the state the call before left. A call of a file detector or
  of the coordinator sees one snapshot of the filesystem, which may differ from call to
  call; the outcomes are collected in order.
\<close>

fun FileDetector_detect_calls :: "filesystem list \<Rightarrow> clock \<Rightarrow> file_detector
    \<Rightarrow> event list outcome list \<times> file_detector \<times> clock" where
  "FileDetector_detect_calls [] clk d = ([], d, clk)"
| "FileDetector_detect_calls (fs # snaps) clk d =
     (case FileDetector_detect fs clk d of (r, d', clk') \<Rightarrow>
        (case FileDetector_detect_calls snaps clk' d' of (rs, d2, clk2) \<Rightarrow> (r # rs, d2, clk2)))"

fun ProcessDetector_detect_calls :: "nat \<Rightarrow> clock \<Rightarrow> process_detector
    \<Rightarrow> event list outcome list \<times> process_detector \<times> clock" where
  "ProcessDetector_detect_calls 0 clk d = ([], d, clk)"
| "ProcessDetector_detect_calls (Suc n) clk d =
     (case ProcessDetector_detect clk d of (r, d', clk') \<Rightarrow>
        (case ProcessDetector_detect_calls n clk' d' of (rs, d2, clk2) \<Rightarrow> (r # rs, d2, clk2)))"

fun run_all_detections_calls :: "'c user_detect \<Rightarrow> filesystem list \<Rightarrow> clock \<Rightarrow> 'c Detector
    \<Rightarrow> event list outcome list \<times> 'c Detector \<times> clock" where
  "run_all_detections_calls ud [] clk reg = ([], reg, clk)"
| "run_all_detections_calls ud (fs # snaps) clk reg =
     (case run_all_detections ud fs clk reg of (r, reg', clk') \<Rightarrow>
        (case run_all_detections_calls ud snaps clk' reg' of (rs, reg2, clk2) \<Rightarrow>
           (r # rs, reg2, clk2)))"

text \<open>What a call of \<^verbatim>\<open>run_all_detections\<close> handed back: its batch, or nothing if it raised.\<close>

definition batch_of :: "event list outcome \<Rightarrow> event list" where
  "batch_of r = (case r of Return batch \<Rightarrow> batch | Raise e \<Rightarrow> [])"

section \<open>Notions used in the statements and proofs\<close>

text \<open>
  The file paths \<^verbatim>\<open>detect\<close> and \<^verbatim>\<open>_initialize_cache\<close> go through, in order: the paths
  \<^verbatim>\<open>os.path.join(root, file)\<close> of a walk, those of one watch path, and those of all watch
  paths.
\<close>

definition walked_files :: "filesystem \<Rightarrow> path \<Rightarrow> path list" where
  "walked_files fs p =
     concat (map (\<lambda>(dirpath, dirs, files). map (path_join fs dirpath) files) (os_walk fs p))"

definition files_of :: "filesystem \<Rightarrow> path \<Rightarrow> path list" where
  "files_of fs p =
     (if isfile fs p then [p] else if isdir fs p then walked_files fs p else [])"

definition candidates :: "filesystem \<Rightarrow> path list \<Rightarrow> path list" where
  "candidates fs paths = concat (map (files_of fs) paths)"

text \<open>
  One step of \<^verbatim>\<open>detect\<close> on a path, and the steps on a list of paths: a path that
  \<^verbatim>\<open>os.stat\<close> does not find is passed over, any other is compared with the cache.
\<close>

definition observe_file :: "filesystem \<Rightarrow> timestamp \<Rightarrow> path
    \<Rightarrow> (path \<rightharpoonup> timestamp) \<times> event list \<Rightarrow> (path \<rightharpoonup> timestamp) \<times> event list" where
  "observe_file fs current_time q st =
     (case os_stat fs q of Inl _ \<Rightarrow> st | Inr (_, m) \<Rightarrow> observe q m current_time st)"

definition observe_all :: "filesystem \<Rightarrow> timestamp \<Rightarrow> path list
    \<Rightarrow> (path \<rightharpoonup> timestamp) \<times> event list \<Rightarrow> (path \<rightharpoonup> timestamp) \<times> event list" where
  "observe_all fs current_time qs st = foldl (\<lambda>st q. observe_file fs current_time q st) st qs"

text \<open>
  The cache agrees with the filesystem at a path when it holds the modification time of
  what is there, if anything is; the path is recorded when something is there and the
  cache holds its time; the cache is faithful when every entry it has is such a record.
\<close>

definition agrees :: "filesystem \<Rightarrow> (path \<rightharpoonup> timestamp) \<Rightarrow> path \<Rightarrow> bool" where
  "agrees fs cache q = (case os_stat fs q of Inl _ \<Rightarrow> True | Inr (_, m) \<Rightarrow> cache q = Some m)"

definition recorded :: "filesystem \<Rightarrow> (path \<rightharpoonup> timestamp) \<Rightarrow> path \<Rightarrow> bool" where
  "recorded fs cache q = (case os_stat fs q of Inl _ \<Rightarrow> False | Inr (_, m) \<Rightarrow> cache q = Some m)"

definition faithful :: "filesystem \<Rightarrow> (path \<rightharpoonup> timestamp) \<Rightarrow> bool" where
  "faithful fs cache = (\<forall>q. cache q \<noteq> None \<longrightarrow> recorded fs cache q)"

text \<open>
  Between two snapshots exactly one file was created under the watch paths: \<open>p\<close> did not
  exist and now does, the walk of the watch paths now reaches it, and every other path the
  walk reaches was reached before and has the same \<^verbatim>\<open>os.stat\<close>.
\<close>

definition one_file_created :: "filesystem \<Rightarrow> filesystem \<Rightarrow> path list \<Rightarrow> path \<Rightarrow> bool" where
  "one_file_created fs fs' paths p =
     (\<not> exists fs p \<and> exists fs' p \<and> p \<in> set (candidates fs' paths) \<and>
      (\<forall>q \<in> set (candidates fs' paths).
         q \<noteq> p \<longrightarrow> q \<in> set (candidates fs paths) \<and> os_stat fs' q = os_stat fs q))"

text \<open>The detector with the paths of \<open>B\<close> taken off its watch paths.\<close>

definition unwatch :: "path set \<Rightarrow> file_detector \<Rightarrow> file_detector" where
  "unwatch B d = d\<lparr>watch_paths := filter (\<lambda>p. p \<notin> B) (watch_paths d)\<rparr>"

text \<open>
  What one detector adds to a run of the coordinator, in the words of the specification:
  nothing if it is disabled; its events if its \<^verbatim>\<open>detect\<close> returns; one
  \<^verbatim>\<open>detection_error\<close> event naming it and carrying \<^verbatim>\<open>str(e)\<close> if its \<^verbatim>\<open>detect\<close> raises
  \<open>e\<close>. The aggregate of a run gives every detector its turn, in registry order, on the
  clock the turns before left.
\<close>

definition contribution :: "'c user_detect \<Rightarrow> filesystem \<Rightarrow> clock \<Rightarrow> 'c any_detector
    \<Rightarrow> event list \<times> 'c any_detector \<times> clock" where
  "contribution ud fs clk det =
     (if is_enabled det then
        (case detect ud fs clk det of
           (Return rs, det', clk') \<Rightarrow> (rs, det', clk')
         | (Raise e, det', clk') \<Rightarrow>
             (case time_time clk' of (t, clk2) \<Rightarrow>
                ([detection_error (name_of det') (str e) t], det', clk2)))
      else ([], det, clk))"




section \<open>Example values\<close>

text \<open>
  A directory \<^verbatim>\<open>d\<close> holding the file \<^verbatim>\<open>a\<close>, and the same directory after the file \<^verbatim>\<open>b\<close>
  was created in it; a current directory holding the file \<^verbatim>\<open>x\<close>; a clock whose n-th
  reading is n; the file detector that \<^verbatim>\<open>FileDetector(["d"])\<close> builds on the first
  snapshot.
\<close>

definition fs_before :: filesystem where
  "fs_before =
     \<lparr>os_stat = (\<lambda>p. if p = ''d'' then Inr (Directory, 5)
                     else if p = ''d/a'' then Inr (Regular, 1)
                     else Inl ''No such file or directory''),
      os_walk = (\<lambda>p. if p = ''d'' then [(''d'', [], [''a''])] else []),
      path_join = (\<lambda>a b. a @ ''/'' @ b)\<rparr>"

definition fs_after :: filesystem where
  "fs_after =
     \<lparr>os_stat = (\<lambda>p. if p = ''d'' then Inr (Directory, 9)
                     else if p = ''d/a'' then Inr (Regular, 1)
                     else if p = ''d/b'' then Inr (Regular, 9)
                     else Inl ''No such file or directory''),
      os_walk = (\<lambda>p. if p = ''d'' then [(''d'', [], [''a'', ''b''])] else []),
      path_join = (\<lambda>a b. a @ ''/'' @ b)\<rparr>"

definition fs_cwd :: filesystem where
  "fs_cwd =
     \<lparr>os_stat = (\<lambda>p. if p = ''.'' then Inr (Directory, 4)
                     else if p = ''./x'' then Inr (Regular, 3)
                     else Inl ''No such file or directory''),
      os_walk = (\<lambda>p. if p = ''.'' then [(''.'', [], [''x''])] else []),
      path_join = (\<lambda>a b. a @ ''/'' @ b)\<rparr>"

definition clock0 :: clock where
  "clock0 = \<lparr>readings = (\<lambda>n. real n), ticks = 0\<rparr>"

definition detector_A :: file_detector where
  "detector_A =
     \<lparr>name = ''file_detector'', enabled = True, last_detection_time = None,
      watch_paths = [''d''], file_cache = [''d/a'' \<mapsto> 1]\<rparr>"

text \<open>
  A detector whose \<^verbatim>\<open>detect\<close> raises \<^verbatim>\<open>Exception("Test error")\<close>, as \<^verbatim>\<open>ErrorDetector\<close> of the
  tests does, and one whose \<^verbatim>\<open>detect\<close> raises an exception outside \<^verbatim>\<open>Exception\<close>, as a call
  of \<^verbatim>\<open>sys.exit\<close> does; a registry holding such a detector and then a process detector.
\<close>

definition failing :: "unit user_detect" where
  "failing fs clk d = (Raise (Exn True ''Test error''), d, clk)"


definition error_detector :: "unit any_detector" where
  "error_detector =
     CustomD \<lparr>name = ''error_detector'', enabled = True, last_detection_time = None,
              ustate = ()\<rparr>"

definition registry_A :: "unit Detector" where
  "registry_A =
     add_detector (ProcessD ProcessDetector_init) (add_detector error_detector Detector_init)"



definition default_agent :: "(unit, nat) DetectionAgent" where
  "default_agent =
     \<lparr>config = DEFAULT_CONFIG,
      detector =
        \<lparr>detectors =
           [(''file_detector'',
             FileD \<lparr>name = ''file_detector'', enabled = True, last_detection_time = None,
                    watch_paths = [''.''], file_cache = [''./x'' \<mapsto> 3]\<rparr>),
            (''process_detector'', ProcessD ProcessDetector_init)],
         results = []\<rparr>,
      running = False, thread = None, callbacks = []\<rparr>"

section \<open>The loops of \<^verbatim>\<open>FileDetector.detect\<close>\<close>

text \<open>
  In one snapshot \<^verbatim>\<open>getmtime\<close> follows a successful \<^verbatim>\<open>exists\<close>, so the loops raise nothing
  and amount to the steps on the paths they go through.
\<close>

lemma observe_all_Nil [simp]: "observe_all fs t [] st = st"
  by (simp add: observe_all_def)

lemma observe_all_Cons [simp]:
  "observe_all fs t (q # qs) st = observe_all fs t qs (observe_file fs t q st)"
  by (simp add: observe_all_def)

lemma observe_all_append [simp]:
  "observe_all fs t (qs @ rs) st = observe_all fs t rs (observe_all fs t qs st)"
  by (simp add: observe_all_def)

lemma detect_files_fold:
  "detect_files fs t dp files st = (None, observe_all fs t (map (path_join fs dp) files) st)"
  by (induction files arbitrary: st)
     (auto simp: exists_def getmtime_def observe_file_def Let_def split: sum.splits)

lemma detect_walk_fold:
  "detect_walk fs t triples st =
     (None, observe_all fs t
        (concat (map (\<lambda>(dirpath, dirs, files). map (path_join fs dirpath) files) triples)) st)"
proof (induction triples arbitrary: st)
  case Nil
  show ?case by simp
next
  case (Cons tr triples)
  obtain dp ds files where tr: "tr = (dp, ds, files)" by (cases tr)
  show ?case by (simp add: tr detect_files_fold Cons.IH)
qed

lemma detect_paths_fold:
  "detect_paths fs t paths st = (None, observe_all fs t (candidates fs paths) st)"
proof (induction paths arbitrary: st)
  case Nil
  show ?case by (simp add: candidates_def)
next
  case (Cons p paths)
  have c: "candidates fs (p # paths) = files_of fs p @ candidates fs paths"
    by (simp add: candidates_def)
  show ?case
  proof (cases "os_stat fs p")
    case (Inl msg)
    then show ?thesis
      by (simp add: c Cons.IH files_of_def exists_def isfile_def isdir_def)
  next
    case (Inr km)
    obtain k m where km: "km = (k, m)" by (cases km)
    show ?thesis
      by (cases k)
         (simp_all add: c Inr km Cons.IH files_of_def exists_def isfile_def isdir_def
            getmtime_def observe_file_def detect_walk_fold walked_files_def)
  qed
qed

subsection \<open>The cache after a scan\<close>

lemma observe_file_agrees_self: "agrees fs (fst (observe_file fs t q st)) q"
  by (cases st) (auto simp: observe_file_def observe_def agrees_def split: sum.splits)

lemma observe_file_agrees_keep:
  "agrees fs (fst st) r \<Longrightarrow> agrees fs (fst (observe_file fs t q st)) r"
  by (cases st) (auto simp: observe_file_def observe_def agrees_def split: sum.splits)

lemma observe_all_agrees_keep:
  "agrees fs (fst st) r \<Longrightarrow> agrees fs (fst (observe_all fs t qs st)) r"
  by (induction qs arbitrary: st) (simp_all add: observe_file_agrees_keep)

lemma observe_all_agrees:
  "q \<in> set qs \<Longrightarrow> agrees fs (fst (observe_all fs t qs st)) q"
proof (induction qs arbitrary: st)
  case Nil
  then show ?case by simp
next
  case (Cons r qs)
  show ?case
  proof (cases "q = r")
    case True
    then show ?thesis
      by (simp add: observe_all_agrees_keep observe_file_agrees_self)
  next
    case False
    with Cons show ?thesis by simp
  qed
qed

lemma observe_file_idle:
  "agrees fs cache q \<Longrightarrow> observe_file fs t q (cache, ds) = (cache, ds)"
  by (auto simp: observe_file_def observe_def agrees_def split: sum.splits)

lemma observe_all_idle:
  "(\<And>q. q \<in> set qs \<Longrightarrow> agrees fs cache q) \<Longrightarrow> observe_all fs t qs (cache, ds) = (cache, ds)"
  by (induction qs) (simp_all add: observe_file_idle)

lemma observe_all_one_new:
  assumes st: "os_stat fs p = Inr (k, m)"
    and others: "\<And>q. q \<in> set qs \<Longrightarrow> q \<noteq> p \<Longrightarrow> agrees fs cache q"
  shows "observe_all fs t qs (cache, ds) =
     (if p \<in> set qs \<and> cache p \<noteq> Some m
      then (cache(p \<mapsto> m),
            ds @ [file_change p t (if cache p \<noteq> None then ''modified'' else ''created'')])
      else (cache, ds))"
  using others
proof (induction qs)
  case Nil
  show ?case by simp
next
  case (Cons q qs)
  show ?case
  proof (cases "q = p")
    case True
    show ?thesis
    proof (cases "cache p = Some m")
      case True
      then have "agrees fs cache p" by (simp add: agrees_def st)
      then have "observe_file fs t p (cache, ds) = (cache, ds)" by (rule observe_file_idle)
      with Cons \<open>q = p\<close> True show ?thesis by simp
    next
      case False
      have step: "observe_file fs t p (cache, ds) =
          (cache(p \<mapsto> m),
           ds @ [file_change p t (if cache p \<noteq> None then ''modified'' else ''created'')])"
        using False by (auto simp: observe_file_def observe_def st)
      have "\<And>r. r \<in> set qs \<Longrightarrow> agrees fs (cache(p \<mapsto> m)) r"
      proof -
        fix r assume r: "r \<in> set qs"
        show "agrees fs (cache(p \<mapsto> m)) r"
        proof (cases "r = p")
          case True
          then show ?thesis by (simp add: agrees_def st)
        next
          case False
          with Cons.prems [of r] r have "agrees fs cache r" by simp
          with False show ?thesis by (auto simp: agrees_def split: sum.splits)
        qed
      qed
      then have "observe_all fs t qs (cache(p \<mapsto> m),
            ds @ [file_change p t (if cache p \<noteq> None then ''modified'' else ''created'')]) =
          (cache(p \<mapsto> m),
            ds @ [file_change p t (if cache p \<noteq> None then ''modified'' else ''created'')])"
        by (rule observe_all_idle)
      with step False \<open>q = p\<close> show ?thesis by simp
    qed
  next
    case False
    with Cons.prems [of q] have "agrees fs cache q" by simp
    then have "observe_file fs t q (cache, ds) = (cache, ds)" by (rule observe_file_idle)
    with Cons False show ?thesis by simp
  qed
qed

subsection \<open>The cache after construction\<close>

lemma recorded_update:
  "os_stat fs q = Inr (k, m) \<Longrightarrow> recorded fs cache r \<Longrightarrow> recorded fs (cache(q \<mapsto> m)) r"
  by (auto simp: recorded_def split: sum.splits)

lemma recorded_update_self:
  "os_stat fs q = Inr (k, m) \<Longrightarrow> recorded fs (cache(q \<mapsto> m)) q"
  by (simp add: recorded_def)

lemma faithful_update:
  assumes st: "os_stat fs q = Inr (k, m)" and f: "faithful fs cache"
  shows "faithful fs (cache(q \<mapsto> m))"
  unfolding faithful_def
proof (intro allI impI)
  fix r assume r: "(cache(q \<mapsto> m)) r \<noteq> None"
  show "recorded fs (cache(q \<mapsto> m)) r"
  proof (cases "r = q")
    case True
    then show ?thesis by (simp add: recorded_update_self [OF st])
  next
    case False
    with r have "cache r \<noteq> None" by simp
    with f have "recorded fs cache r" by (simp add: faithful_def)
    then show ?thesis by (rule recorded_update [OF st])
  qed
qed

lemma init_files_sound:
  "init_files fs dp files c0 = Inr c \<Longrightarrow>
     (faithful fs c0 \<longrightarrow> faithful fs c) \<and>
     (\<forall>r. recorded fs c0 r \<longrightarrow> recorded fs c r) \<and>
     (\<forall>q \<in> set (map (path_join fs dp) files). recorded fs c q)"
proof (induction files arbitrary: c0)
  case Nil
  then show ?case by simp
next
  case (Cons f files)
  let ?q = "path_join fs dp f"
  from Cons.prems obtain k m where st: "os_stat fs ?q = Inr (k, m)"
    and rest: "init_files fs dp files (c0(?q \<mapsto> m)) = Inr c"
    by (auto simp: getmtime_def Let_def split: sum.splits)
  note ih = Cons.IH [OF rest]
  have a: "faithful fs c0 \<longrightarrow> faithful fs c"
    using ih faithful_update [OF st] by blast
  have b: "\<forall>r. recorded fs c0 r \<longrightarrow> recorded fs c r"
    using ih recorded_update [OF st] by blast
  have "recorded fs c ?q"
    using ih recorded_update_self [OF st] by blast
  moreover have "\<forall>q \<in> set (map (path_join fs dp) files). recorded fs c q"
    using ih by blast
  ultimately have "\<forall>q \<in> set (map (path_join fs dp) (f # files)). recorded fs c q"
    by simp
  with a b show ?case by blast
qed

lemma init_walk_sound:
  "init_walk fs triples c0 = Inr c \<Longrightarrow>
     (faithful fs c0 \<longrightarrow> faithful fs c) \<and>
     (\<forall>r. recorded fs c0 r \<longrightarrow> recorded fs c r) \<and>
     (\<forall>q \<in> set (concat (map (\<lambda>(dirpath, dirs, files). map (path_join fs dirpath) files)
                  triples)). recorded fs c q)"
proof (induction triples arbitrary: c0)
  case Nil
  then show ?case by simp
next
  case (Cons tr triples)
  obtain dp ds files where tr: "tr = (dp, ds, files)" by (cases tr)
  from Cons.prems obtain c1 where one: "init_files fs dp files c0 = Inr c1"
    and rest: "init_walk fs triples c1 = Inr c"
    by (auto simp: tr split: sum.splits)
  from init_files_sound [OF one] Cons.IH [OF rest] show ?case
    by (auto simp: tr)
qed

lemma initialize_cache_sound:
  "initialize_cache fs paths c0 = Inr c \<Longrightarrow>
     (faithful fs c0 \<longrightarrow> faithful fs c) \<and>
     (\<forall>r. recorded fs c0 r \<longrightarrow> recorded fs c r) \<and>
     (\<forall>q \<in> set (candidates fs paths). recorded fs c q)"
proof (induction paths arbitrary: c0)
  case Nil
  then show ?case by (simp add: candidates_def)
next
  case (Cons p paths)
  have c: "candidates fs (p # paths) = files_of fs p @ candidates fs paths"
    by (simp add: candidates_def)
  show ?case
  proof (cases "os_stat fs p")
    case (Inl msg)
    with Cons.prems have "initialize_cache fs paths c0 = Inr c"
      by (simp add: exists_def)
    from Cons.IH [OF this] show ?thesis
      by (simp add: c files_of_def isfile_def isdir_def Inl)
  next
    case (Inr km)
    obtain k m where km: "km = (k, m)" by (cases km)
    note st = Inr [unfolded km]
    show ?thesis
    proof (cases k)
      case Regular
      with Cons.prems st have rest: "initialize_cache fs paths (c0(p \<mapsto> m)) = Inr c"
        by (simp add: exists_def isfile_def getmtime_def)
      note ih = Cons.IH [OF rest]
      have a: "faithful fs c0 \<longrightarrow> faithful fs c"
        using ih faithful_update [OF st] by blast
      have b: "\<forall>r. recorded fs c0 r \<longrightarrow> recorded fs c r"
        using ih recorded_update [OF st] by blast
      have "recorded fs c p"
        using ih recorded_update_self [OF st] by blast
      moreover have "\<forall>q \<in> set (candidates fs paths). recorded fs c q"
        using ih by blast
      moreover have "files_of fs p = [p]"
        by (simp add: files_of_def isfile_def st Regular)
      ultimately have "\<forall>q \<in> set (candidates fs (p # paths)). recorded fs c q"
        by (simp add: c)
      with a b show ?thesis by blast
    next
      case Directory
      with Cons.prems st obtain c1 where one: "init_walk fs (os_walk fs p) c0 = Inr c1"
        and rest: "initialize_cache fs paths c1 = Inr c"
        by (auto simp: exists_def isfile_def isdir_def split: sum.splits)
      from init_walk_sound [OF one] Cons.IH [OF rest] show ?thesis
        by (auto simp: c files_of_def isfile_def isdir_def st Directory walked_files_def)
    next
      case Other
      with Cons.prems st have "initialize_cache fs paths c0 = Inr c"
        by (simp add: exists_def isfile_def isdir_def)
      from Cons.IH [OF this] show ?thesis
        by (simp add: c files_of_def isfile_def isdir_def st Other)
    qed
  qed
qed

lemma recorded_agrees: "recorded fs cache q \<Longrightarrow> agrees fs cache q"
  by (auto simp: recorded_def agrees_def split: sum.splits)

lemma faithful_empty: "faithful fs Map.empty"
  by (simp add: faithful_def)

subsection \<open>\<^verbatim>\<open>detect\<close> as a whole\<close>

lemma FileDetector_detect_enabled:
  "enabled d \<Longrightarrow> FileDetector_detect fs clk d =
     (Return (snd (observe_all fs (readings clk (ticks clk))
                (candidates fs (watch_paths d)) (file_cache d, []))),
      d\<lparr>file_cache := fst (observe_all fs (readings clk (ticks clk))
                (candidates fs (watch_paths d)) (file_cache d, [])),
        last_detection_time := Some (readings clk (ticks clk))\<rparr>,
      clk\<lparr>ticks := Suc (ticks clk)\<rparr>)"
  by (simp add: FileDetector_detect_def time_time_def detect_paths_fold split: prod.splits)

lemma FileDetector_detect_disabled:
  "\<not> enabled d \<Longrightarrow> FileDetector_detect fs clk d = (Return [], d, clk)"
  by (simp add: FileDetector_detect_def)

lemma FileDetector_detect_returns: "\<exists>evs. fst (FileDetector_detect fs clk d) = Return evs"
  by (cases "enabled d") (simp_all add: FileDetector_detect_enabled FileDetector_detect_disabled)

lemma FileDetector_detect_watch_paths:
  "watch_paths (fst (snd (FileDetector_detect fs clk d))) = watch_paths d"
  by (cases "enabled d") (simp_all add: FileDetector_detect_enabled FileDetector_detect_disabled)

lemma files_of_missing: "\<not> exists fs p \<Longrightarrow> files_of fs p = []"
  by (auto simp: files_of_def exists_def isfile_def isdir_def split: sum.splits)

lemma candidates_unwatch:
  "\<forall>p \<in> B. \<not> exists fs p \<Longrightarrow>
   candidates fs (filter (\<lambda>p. p \<notin> B) paths) = candidates fs paths"
  by (induction paths) (auto simp: candidates_def files_of_missing)

lemma candidates_all_missing:
  "\<forall>p \<in> B. \<not> exists fs p \<Longrightarrow> set paths \<subseteq> B \<Longrightarrow> candidates fs paths = []"
  by (induction paths) (auto simp: candidates_def files_of_missing)

lemma FileDetector_detect_unwatch:
  assumes "\<forall>p \<in> B. \<not> exists fs p"
    and "FileDetector_detect fs clk d = (r, d', clk')"
  shows "FileDetector_detect fs clk (unwatch B d) = (r, unwatch B d', clk')"
proof (cases "enabled d")
  case False
  with assms(2) show ?thesis
    by (auto simp: FileDetector_detect_disabled unwatch_def)
next
  case True
  then have en: "enabled (unwatch B d)" by (simp add: unwatch_def)
  have c: "candidates fs (watch_paths (unwatch B d)) = candidates fs (watch_paths d)"
    by (simp add: unwatch_def candidates_unwatch [OF assms(1)])
  have f: "file_cache (unwatch B d) = file_cache d" by (simp add: unwatch_def)
  from assms(2) show ?thesis
    unfolding FileDetector_detect_enabled [OF True] FileDetector_detect_enabled [OF en] c f
    by (auto simp: unwatch_def)
qed

lemma FileDetector_detect_all_missing:
  assumes "\<forall>p \<in> B. \<not> exists fs p" and "set (watch_paths d) \<subseteq> B"
  shows "fst (FileDetector_detect fs clk d) = Return []"
  by (cases "enabled d")
     (simp_all add: FileDetector_detect_enabled FileDetector_detect_disabled
        candidates_all_missing [OF assms])

section \<open>The loops of the coordinator and of the agent\<close>

lemma run_all_detections_history:
  "results (fst (snd (run_all_detections ud fs clk reg))) =
     results reg @ batch_of (fst (run_all_detections ud fs clk reg))"
  by (simp add: run_all_detections_def batch_of_def split: prod.splits option.splits)

lemma run_all_detections_calls_history:
  "results (fst (snd (run_all_detections_calls ud snaps clk reg))) =
     results reg @ concat (map batch_of (fst (run_all_detections_calls ud snaps clk reg)))"
proof (induction snaps arbitrary: clk reg)
  case Nil
  show ?case by simp
next
  case (Cons fs snaps)
  obtain r reg' clk' where one: "run_all_detections ud fs clk reg = (r, reg', clk')"
    by (cases "run_all_detections ud fs clk reg") auto
  from run_all_detections_history [of ud fs clk reg] one
  have h: "results reg' = results reg @ batch_of r" by simp
  show ?case
    using Cons.IH [of clk' reg'] by (auto simp: one h split: prod.splits)
qed




lemmas example_defs =
  fs_before_def fs_after_def clock0_def detector_A_def FileDetector_detect_def
  ProcessDetector_detect_def time_time_def exists_def isfile_def isdir_def getmtime_def
  observe_def file_change_def process_check_def FileDetector_init_def Let_def

lemmas registry_defs =
  registry_A_def error_detector_def add_detector_def Detector_init_def ProcessDetector_init_def
  run_all_detections_def detection_error_def contribution_def get_detector_def


section \<open>The claims\<close>




text \<open>
  Claim C2. A disabled \<^verbatim>\<open>FileDetector\<close> and a disabled \<^verbatim>\<open>ProcessDetector\<close> return the empty
  list from every call of \<^verbatim>\<open>detect\<close>, for every sequence of calls, and the calls leave the
  whole detector as it was: \<^verbatim>\<open>last_detection_time\<close>, the file cache and every other
  attribute. The clock is not read.
\<close>

theorem disabled_detect_changes_nothing:
  assumes "\<not> enabled fd" and "\<not> enabled pd"
  shows "FileDetector_detect_calls snaps clk fd =
           (replicate (length snaps) (Return []), fd, clk) \<and>
         ProcessDetector_detect_calls n clk pd = (replicate n (Return []), pd, clk)"
proof
  show "FileDetector_detect_calls snaps clk fd = (replicate (length snaps) (Return []), fd, clk)"
    using assms(1) by (induction snaps) (simp_all add: FileDetector_detect_def)
  show "ProcessDetector_detect_calls n clk pd = (replicate n (Return []), pd, clk)"
    using assms(2) by (induction n) (simp_all add: ProcessDetector_detect_def)
qed

theorem disabled_detect_witness:
  "FileDetector_detect_calls [fs_before, fs_after] clock0 (detector_A\<lparr>enabled := False\<rparr>) =
     ([Return [], Return []], detector_A\<lparr>enabled := False\<rparr>, clock0) \<and>
   ProcessDetector_detect_calls 2 clock0 (ProcessDetector_init\<lparr>enabled := False\<rparr>) =
     ([Return [], Return []], ProcessDetector_init\<lparr>enabled := False\<rparr>, clock0)"
  using disabled_detect_changes_nothing
    [of "detector_A\<lparr>enabled := False\<rparr>" "ProcessDetector_init\<lparr>enabled := False\<rparr>"
        "[fs_before, fs_after]" clock0 2]
  by (simp add: numeral_2_eq_2)

text \<open>
  Claim C3. A call of \<^verbatim>\<open>run_all_detections\<close> that returns a batch leaves the history
  extended by exactly that batch. After any number of calls on a registry whose history
  was cleared, all of which returned, the history is the concatenation of the returned
  batches (an empty batch adds nothing). \<^verbatim>\<open>clear_history\<close> empties the history of any
  registry.
\<close>

theorem history_accumulates:
  assumes "run_all_detections ud fs clk reg = (Return batch, reg', clk')"
    and "fst (run_all_detections_calls ud snaps clk2 (clear_history reg2)) = map Return batches"
  shows "results reg' = results reg @ batch \<and>
         results (fst (snd (run_all_detections_calls ud snaps clk2 (clear_history reg2)))) =
           concat batches \<and>
         results (clear_history reg2) = []"
proof -
  from run_all_detections_history [of ud fs clk reg] assms(1)
  have "results reg' = results reg @ batch" by (simp add: batch_of_def)
  moreover have c: "results (clear_history reg2) = []" by (simp add: clear_history_def)
  moreover have "map batch_of (map Return batches) = batches"
    by (induction batches) (simp_all add: batch_of_def)
  with run_all_detections_calls_history [of ud snaps clk2 "clear_history reg2"] assms(2) c
  have "results (fst (snd (run_all_detections_calls ud snaps clk2 (clear_history reg2)))) =
      concat batches" by simp
  ultimately show ?thesis by simp
qed

theorem history_witness:
  "fst (run_all_detections failing fs_before clock0 registry_A) =
     Return [detection_error ''error_detector'' ''Test error'' 0, process_check 1] \<and>
   results (fst (snd (run_all_detections failing fs_before clock0 registry_A))) =
     [detection_error ''error_detector'' ''Test error'' 0, process_check 1] \<and>
   fst (run_all_detections_calls failing [fs_before, fs_before] clock0
       (clear_history registry_A)) =
     [Return [detection_error ''error_detector'' ''Test error'' 0, process_check 1],
      Return [detection_error ''error_detector'' ''Test error'' 2, process_check 3]] \<and>
   results (fst (snd (run_all_detections_calls failing [fs_before, fs_before] clock0
       (clear_history registry_A)))) =
     [detection_error ''error_detector'' ''Test error'' 0, process_check 1,
      detection_error ''error_detector'' ''Test error'' 2, process_check 3]"
proof -
  have e: "fst (run_all_detections failing fs_before clock0 registry_A) =
     Return [detection_error ''error_detector'' ''Test error'' 0, process_check 1]"
    by (simp add: registry_defs example_defs failing_def)
  then have h: "run_all_detections failing fs_before clock0 registry_A =
     (Return [detection_error ''error_detector'' ''Test error'' 0, process_check 1],
      fst (snd (run_all_detections failing fs_before clock0 registry_A)),
      snd (snd (run_all_detections failing fs_before clock0 registry_A)))"
    by (metis prod.collapse)
  have r: "results registry_A = []"
    by (simp add: registry_defs)
  have b: "fst (run_all_detections_calls failing [fs_before, fs_before] clock0
        (clear_history registry_A)) =
     map Return
       [[detection_error ''error_detector'' ''Test error'' 0, process_check 1],
        [detection_error ''error_detector'' ''Test error'' 2, process_check 3]]"
    by (simp add: registry_defs example_defs failing_def clear_history_def)
  from history_accumulates [OF h b] e r b
  show ?thesis by simp
qed




text \<open>
  Claim C5. Let \<^verbatim>\<open>FileDetector(paths)\<close> be constructed in a snapshot of the filesystem.
  The first \<^verbatim>\<open>detect\<close> after it, in the same snapshot, returns no event at all, so no
  \<^verbatim>\<open>created\<close> event for any file that was there. If then exactly one file is created
  under the watch paths, the next \<^verbatim>\<open>detect\<close> returns exactly one event: a
  \<^verbatim>\<open>file_change\<close> with that file's path and the action \<^verbatim>\<open>created\<close>.
\<close>

theorem cold_start_baseline:
  assumes init: "FileDetector_init fs paths = Inr d"
    and first: "FileDetector_detect fs clk d = (r1, d1, clk1)"
    and new: "one_file_created fs fs' (watch_paths d) p"
  shows "r1 = Return [] \<and>
         fst (FileDetector_detect fs' clk2 d1) =
           Return [file_change p (readings clk2 (ticks clk2)) ''created'']"
proof -
  from init obtain wp where
    ic: "initialize_cache fs wp Map.empty = Inr (file_cache d)"
    and wp: "watch_paths d = wp" and en: "enabled d"
    by (auto simp: FileDetector_init_def Let_def split: sum.splits)
  from initialize_cache_sound [OF ic] faithful_empty
  have faith: "faithful fs (file_cache d)"
    and rec: "\<And>q. q \<in> set (candidates fs (watch_paths d)) \<Longrightarrow> recorded fs (file_cache d) q"
    by (auto simp: wp)
  have idle: "\<And>t. observe_all fs t (candidates fs (watch_paths d)) (file_cache d, []) =
      (file_cache d, [])"
    by (rule observe_all_idle) (simp add: rec recorded_agrees)
  from first en have r1: "r1 = Return []"
    and d1: "d1 = d\<lparr>file_cache := file_cache d,
                     last_detection_time := Some (readings clk (ticks clk))\<rparr>"
    by (simp_all add: FileDetector_detect_enabled idle)
  have en1: "enabled d1" and wp1: "watch_paths d1 = watch_paths d"
    and fc1: "file_cache d1 = file_cache d"
    using en by (simp_all add: d1)
  from new have nex: "\<not> exists fs p" and ex': "exists fs' p"
    and mem: "p \<in> set (candidates fs' (watch_paths d))"
    and same: "\<And>q. q \<in> set (candidates fs' (watch_paths d)) \<Longrightarrow> q \<noteq> p \<Longrightarrow>
        q \<in> set (candidates fs (watch_paths d)) \<and> os_stat fs' q = os_stat fs q"
    by (auto simp: one_file_created_def)
  from nex have "\<not> recorded fs (file_cache d) p"
    by (auto simp: exists_def recorded_def split: sum.splits)
  with faith have absent: "file_cache d p = None"
    by (auto simp: faithful_def)
  from ex' obtain k m where st': "os_stat fs' p = Inr (k, m)"
    by (auto simp: exists_def split: sum.splits)
  have others: "\<And>q. q \<in> set (candidates fs' (watch_paths d)) \<Longrightarrow> q \<noteq> p \<Longrightarrow>
      agrees fs' (file_cache d) q"
  proof -
    fix q assume q: "q \<in> set (candidates fs' (watch_paths d))" "q \<noteq> p"
    from same [OF q] rec have "recorded fs (file_cache d) q" by simp
    with same [OF q] have "recorded fs' (file_cache d) q" by (simp add: recorded_def)
    then show "agrees fs' (file_cache d) q" by (rule recorded_agrees)
  qed
  have "observe_all fs' (readings clk2 (ticks clk2)) (candidates fs' (watch_paths d))
          (file_cache d, []) =
        ((file_cache d)(p \<mapsto> m), [file_change p (readings clk2 (ticks clk2)) ''created''])"
    using observe_all_one_new [OF st' others, of "candidates fs' (watch_paths d)"
        "readings clk2 (ticks clk2)" "[]"] mem absent
    by simp
  then have "fst (FileDetector_detect fs' clk2 d1) =
      Return [file_change p (readings clk2 (ticks clk2)) ''created'']"
    by (simp add: FileDetector_detect_enabled [OF en1] wp1 fc1)
  with r1 show ?thesis by simp
qed

theorem cold_start_witness:
  "FileDetector_init fs_before (Some [''d'']) = Inr detector_A \<and>
   one_file_created fs_before fs_after [''d''] ''d/b'' \<and>
   fst (FileDetector_detect fs_before clock0 detector_A) = Return [] \<and>
   fst (FileDetector_detect fs_after clock0
          (fst (snd (FileDetector_detect fs_before clock0 detector_A)))) =
     Return [file_change ''d/b'' 0 ''created'']"
proof -
  have h1: "FileDetector_init fs_before (Some [''d'']) = Inr detector_A"
    by (simp add: example_defs)
  have h2: "one_file_created fs_before fs_after [''d''] ''d/b''"
    by (simp add: one_file_created_def candidates_def files_of_def walked_files_def
          example_defs)
  have h2': "one_file_created fs_before fs_after (watch_paths detector_A) ''d/b''"
    using h2 by (simp add: detector_A_def)
  have h3: "FileDetector_detect fs_before clock0 detector_A =
      (fst (FileDetector_detect fs_before clock0 detector_A),
       fst (snd (FileDetector_detect fs_before clock0 detector_A)),
       snd (snd (FileDetector_detect fs_before clock0 detector_A)))"
    by simp
  from cold_start_baseline [OF h1 h3 h2', of clock0] h1 h2
  show ?thesis by (simp add: clock0_def)
qed

text \<open>
  Claim C6. For every \<^verbatim>\<open>FileDetector\<close> and every snapshot of the filesystem, \<^verbatim>\<open>detect\<close>
  returns, and a second \<^verbatim>\<open>detect\<close> in the same snapshot, at any later time, returns no
  event and leaves the cache as the first call left it.
\<close>

theorem detect_twice_second_is_empty:
  assumes first: "FileDetector_detect fs clk d = (r1, d1, clk1)"
  shows "(\<exists>evs. r1 = Return evs) \<and>
         fst (FileDetector_detect fs clk2 d1) = Return [] \<and>
         file_cache (fst (snd (FileDetector_detect fs clk2 d1))) = file_cache d1"
proof (cases "enabled d")
  case False
  with first have "r1 = Return []" "d1 = d"
    by (simp_all add: FileDetector_detect_disabled)
  with False show ?thesis by (simp add: FileDetector_detect_disabled)
next
  case True
  let ?st = "observe_all fs (readings clk (ticks clk)) (candidates fs (watch_paths d))
               (file_cache d, [])"
  from first True have r1: "r1 = Return (snd ?st)"
    and d1: "d1 = d\<lparr>file_cache := fst ?st,
                     last_detection_time := Some (readings clk (ticks clk))\<rparr>"
    by (simp_all add: FileDetector_detect_enabled)
  have en: "enabled d1" and wp: "watch_paths d1 = watch_paths d"
    and fc: "file_cache d1 = fst ?st"
    using True by (simp_all add: d1)
  have "\<And>q. q \<in> set (candidates fs (watch_paths d1)) \<Longrightarrow> agrees fs (file_cache d1) q"
    by (simp add: wp fc observe_all_agrees)
  then have idle: "observe_all fs (readings clk2 (ticks clk2)) (candidates fs (watch_paths d1))
      (file_cache d1, []) = (file_cache d1, [])"
    by (rule observe_all_idle)
  show ?thesis
    by (simp add: r1 FileDetector_detect_enabled [OF en] idle)
qed

theorem detect_twice_witness:
  "fst (FileDetector_detect fs_after clock0 detector_A) =
     Return [file_change ''d/b'' 0 ''created''] \<and>
   fst (FileDetector_detect fs_after clock0
          (fst (snd (FileDetector_detect fs_after clock0 detector_A)))) = Return []"
proof -
  have "fst (FileDetector_detect fs_after clock0 detector_A) =
     Return [file_change ''d/b'' 0 ''created'']"
    by (simp add: example_defs)
  moreover have "fst (FileDetector_detect fs_after clock0
          (fst (snd (FileDetector_detect fs_after clock0 detector_A)))) = Return []"
    using detect_twice_second_is_empty
      [of fs_after clock0 detector_A
          "fst (FileDetector_detect fs_after clock0 detector_A)"
          "fst (snd (FileDetector_detect fs_after clock0 detector_A))"
          "snd (snd (FileDetector_detect fs_after clock0 detector_A))" clock0]
    by simp
  ultimately show ?thesis by simp
qed

text \<open>
  Claim C7. On an enabled \<^verbatim>\<open>FileDetector\<close> and on an enabled \<^verbatim>\<open>ProcessDetector\<close>, every
  call of \<^verbatim>\<open>detect\<close> returns, reads the clock exactly once and leaves
  \<^verbatim>\<open>last_detection_time\<close> at that reading, whatever events it returns.
\<close>

theorem enabled_detect_sets_last_detection_time:
  assumes "enabled fd" and "enabled pd"
  shows "(\<exists>evs cache.
            FileDetector_detect fs clk fd =
              (Return evs,
               fd\<lparr>file_cache := cache,
                  last_detection_time := Some (readings clk (ticks clk))\<rparr>,
               clk\<lparr>ticks := Suc (ticks clk)\<rparr>)) \<and>
         (\<exists>evs.
            ProcessDetector_detect clk pd =
              (Return evs,
               pd\<lparr>last_detection_time := Some (readings clk (ticks clk))\<rparr>,
               clk\<lparr>ticks := Suc (ticks clk)\<rparr>))"
proof
  show "\<exists>evs cache.
            FileDetector_detect fs clk fd =
              (Return evs,
               fd\<lparr>file_cache := cache,
                  last_detection_time := Some (readings clk (ticks clk))\<rparr>,
               clk\<lparr>ticks := Suc (ticks clk)\<rparr>)"
    using FileDetector_detect_enabled [OF assms(1), of fs clk] by blast
  show "\<exists>evs.
            ProcessDetector_detect clk pd =
              (Return evs,
               pd\<lparr>last_detection_time := Some (readings clk (ticks clk))\<rparr>,
               clk\<lparr>ticks := Suc (ticks clk)\<rparr>)"
    using assms(2) by (simp add: ProcessDetector_detect_def time_time_def)
qed

theorem enabled_detect_witness:
  "enabled detector_A \<and> enabled ProcessDetector_init \<and>
   fst (FileDetector_detect fs_before clock0 detector_A) = Return [] \<and>
   last_detection_time (fst (snd (FileDetector_detect fs_before clock0 detector_A))) = Some 0 \<and>
   ticks (snd (snd (FileDetector_detect fs_before clock0 detector_A))) = 1 \<and>
   last_detection_time (fst (snd (ProcessDetector_detect clock0 ProcessDetector_init))) = Some 0"
proof -
  have h1: "enabled detector_A" by (simp add: detector_A_def)
  have h2: "enabled ProcessDetector_init" by (simp add: ProcessDetector_init_def)
  have e: "fst (FileDetector_detect fs_before clock0 detector_A) = Return []"
    by (simp add: example_defs)
  from enabled_detect_sets_last_detection_time [OF h1 h2, of fs_before clock0] h1 h2 e
  show ?thesis by (auto simp: clock0_def)
qed



text \<open>
  Claim C9. Let \<open>B\<close> be a set of paths that do not exist in any of the snapshots a sequence
  of \<^verbatim>\<open>detect\<close> calls sees. Then no call raises; the calls return what they return when
  the paths of \<open>B\<close> are not watched at all, and leave the same detector but for its watch
  paths; and if every watch path is in \<open>B\<close>, every call returns the empty list.
\<close>

theorem missing_watch_paths_are_skipped:
  assumes "\<forall>fs \<in> set snaps. \<forall>p \<in> B. \<not> exists fs p"
  shows "(\<forall>r \<in> set (fst (FileDetector_detect_calls snaps clk d)). \<exists>evs. r = Return evs) \<and>
         fst (FileDetector_detect_calls snaps clk (unwatch B d)) =
           fst (FileDetector_detect_calls snaps clk d) \<and>
         fst (snd (FileDetector_detect_calls snaps clk (unwatch B d))) =
           unwatch B (fst (snd (FileDetector_detect_calls snaps clk d))) \<and>
         (set (watch_paths d) \<subseteq> B \<longrightarrow>
            fst (FileDetector_detect_calls snaps clk d) = replicate (length snaps) (Return []))"
  using assms
proof (induction snaps arbitrary: clk d)
  case Nil
  show ?case by simp
next
  case (Cons fs snaps)
  obtain r d' clk' where one: "FileDetector_detect fs clk d = (r, d', clk')"
    by (cases "FileDetector_detect fs clk d") auto
  from Cons.prems have here: "\<forall>p \<in> B. \<not> exists fs p"
    and later: "\<forall>fs \<in> set snaps. \<forall>p \<in> B. \<not> exists fs p"
    by simp_all
  note ih = Cons.IH [OF later, of clk' d']
  have un: "FileDetector_detect fs clk (unwatch B d) = (r, unwatch B d', clk')"
    by (rule FileDetector_detect_unwatch [OF here one])
  from FileDetector_detect_returns [of fs clk d] one obtain evs where r: "r = Return evs"
    by auto
  from FileDetector_detect_watch_paths [of fs clk d] one
  have wp: "watch_paths d' = watch_paths d" by simp
  have empty: "set (watch_paths d) \<subseteq> B \<Longrightarrow> r = Return []"
    using FileDetector_detect_all_missing [OF here, of d clk] one by simp
  show ?case
    using ih r empty by (auto simp: one un wp split: prod.splits)
qed

theorem missing_watch_paths_witness:
  "\<not> exists fs_before ''missing'' \<and> \<not> exists fs_after ''missing'' \<and>
   fst (FileDetector_detect_calls [fs_before, fs_after] clock0
          (detector_A\<lparr>watch_paths := [''missing'', ''d'']\<rparr>)) =
     [Return [], Return [file_change ''d/b'' 1 ''created'']] \<and>
   fst (FileDetector_detect_calls [fs_before, fs_after] clock0
          (unwatch {''missing''} (detector_A\<lparr>watch_paths := [''missing'', ''d'']\<rparr>))) =
     [Return [], Return [file_change ''d/b'' 1 ''created'']] \<and>
   fst (FileDetector_detect_calls [fs_before, fs_after] clock0
          (detector_A\<lparr>watch_paths := [''missing'']\<rparr>)) = [Return [], Return []]"
proof -
  have h: "\<forall>fs \<in> set [fs_before, fs_after]. \<forall>p \<in> {''missing''}. \<not> exists fs p"
    by (simp add: example_defs)
  have e: "fst (FileDetector_detect_calls [fs_before, fs_after] clock0
          (detector_A\<lparr>watch_paths := [''missing'', ''d'']\<rparr>)) =
     [Return [], Return [file_change ''d/b'' 1 ''created'']]"
    by (simp add: example_defs split: prod.splits)
  from missing_watch_paths_are_skipped
         [OF h, of clock0 "detector_A\<lparr>watch_paths := [''missing'', ''d'']\<rparr>"]
       missing_watch_paths_are_skipped
         [OF h, of clock0 "detector_A\<lparr>watch_paths := [''missing'']\<rparr>"]
       h e
  show ?thesis by (simp add: detector_A_def)
qed

text \<open>
  Claim C10. The registry of an agent constructed with the default configuration holds
  exactly two detectors, a \<^verbatim>\<open>FileDetector\<close> under the name \<^verbatim>\<open>file_detector\<close> and a
  \<^verbatim>\<open>ProcessDetector\<close> under the name \<^verbatim>\<open>process_detector\<close>, in this order. The tag
  \<^verbatim>\<open>network\<close> adds nothing: \<^verbatim>\<open>_initialize_detectors\<close> does the same with and without it.
\<close>

theorem default_agent_has_two_detectors:
  assumes "DetectionAgent_init fs None = Inr a"
  shows "map fst (detectors (detector a)) = [''file_detector'', ''process_detector''] \<and>
         (\<exists>fd. map snd (detectors (detector a)) = [FileD fd, ProcessD ProcessDetector_init]) \<and>
         initialize_detectors fs DEFAULT_CONFIG reg =
           initialize_detectors fs
             (Config_set DEFAULT_CONFIG ''enabled_detectors''
                (ListV [StrV ''file'', StrV ''process''])) reg"
proof -
  have en: "Config_get DEFAULT_CONFIG ''enabled_detectors'' (ListV []) =
      ListV [StrV ''file'', StrV ''network'', StrV ''process'']"
    by (simp add: Config_get_def DEFAULT_CONFIG_def)
  have en': "Config_get (Config_set DEFAULT_CONFIG ''enabled_detectors''
                (ListV [StrV ''file'', StrV ''process''])) ''enabled_detectors'' (ListV []) =
      ListV [StrV ''file'', StrV ''process'']"
    by (simp add: Config_get_def Config_set_def)
  have same: "initialize_detectors fs DEFAULT_CONFIG reg =
           initialize_detectors fs
             (Config_set DEFAULT_CONFIG ''enabled_detectors''
                (ListV [StrV ''file'', StrV ''process''])) reg"
    unfolding initialize_detectors_def en en' by (simp split: sum.splits)
  from assms obtain fd where fd: "FileDetector_init fs None = Inr fd"
    and a: "detector a =
      add_detector (ProcessD ProcessDetector_init) (add_detector (FileD fd) Detector_init)"
    by (auto simp: DetectionAgent_init_def initialize_detectors_def Config_init_def en Let_def
          split: sum.splits)
  from fd have nm: "name fd = ''file_detector''"
    by (auto simp: FileDetector_init_def Let_def split: sum.splits)
  have "detectors (detector a) =
      [(''file_detector'', FileD fd), (''process_detector'', ProcessD ProcessDetector_init)]"
    by (simp add: a add_detector_def Detector_init_def nm ProcessDetector_init_def)
  with same show ?thesis by simp
qed

theorem default_agent_witness:
  "DetectionAgent_init fs_cwd None = Inr default_agent \<and>
   map fst (detectors (detector default_agent)) = [''file_detector'', ''process_detector'']"
proof -
  have a: "DetectionAgent_init fs_cwd None = Inr default_agent"
    by (simp add: DetectionAgent_init_def initialize_detectors_def Config_init_def
          DEFAULT_CONFIG_def Config_get_def FileDetector_init_def fs_cwd_def
          exists_def isfile_def isdir_def getmtime_def Let_def default_agent_def
          add_detector_def Detector_init_def ProcessDetector_init_def)
  from default_agent_has_two_detectors [OF a, of "Detector_init :: unit Detector"] a
  show ?thesis by simp
qed

end
